theory Spec2Isabelle
  imports Main
begin

section \<open>The data model of \<open>src/main.py\<close>\<close>

text \<open>
  Python exceptions the solver can raise. \<open>IndexError\<close> is what \<open>cell.cell[0]\<close> raises on
  an empty candidate list (the only exception \<open>simple_brute_check\<close> catches);
  \<open>ValueError\<close> is what \<open>list.remove\<close> raises for an absent value and what \<open>int(fill)\<close>
  raises for a character that is not a digit.
\<close>

datatype error = IndexError | ValueError

text \<open>
  Class \<open>Cell\<close>. A cell object has the mutable fields \<open>cell\<close> (the list of candidates,
  Python ints) and \<open>unchecked\<close>. The fields \<open>r\<close>, \<open>c\<close> and \<open>box\<close> are written once by
  \<open>Board.__init__\<close> and never again; the model identifies a cell object with its position
  in \<open>Board.cells\<close> and reads the three coordinates off that position (\<open>r_of\<close>, \<open>c_of\<close>,
  \<open>box_of\<close> below).
\<close>

record Cell =
  cell :: "int list"
  "unchecked" :: bool

text \<open>\<open>Cell.__init__\<close>: \<open>list(range(1,10))\<close>, \<open>unchecked = True\<close>.\<close>

definition Cell_init :: Cell where
  "Cell_init = \<lparr>cell = [1, 2, 3, 4, 5, 6, 7, 8, 9], unchecked = True\<rparr>"

text \<open>Property \<open>Cell.filled\<close>: \<open>len(self.cell) == 1\<close>.\<close>

definition filled :: "Cell \<Rightarrow> bool" where
  "filled x = (length (cell x) = 1)"

text \<open>
  \<open>Cell.remove\<close>: \<open>self.cell.remove(val)\<close>. Python's \<open>list.remove\<close> deletes the first
  occurrence and raises \<open>ValueError\<close> when there is none.
\<close>

definition Cell_remove :: "Cell \<Rightarrow> int \<Rightarrow> error + Cell" where
  "Cell_remove x val =
     (if val \<in> set (cell x) then Inr (x\<lparr>cell := remove1 val (cell x)\<rparr>) else Inl ValueError)"

text \<open>
  Class \<open>Board\<close>. The data frame \<open>board\<close>, the list \<open>cells\<close> and the dictionaries \<open>rows\<close>,
  \<open>cols\<close>, \<open>boxes\<close> all refer to the same 81 cell objects. The model keeps the one store
  \<open>cells\<close> (row-major: \<open>board.at[r, c]\<close> is \<open>cells[9 * (r - 1) + (c - 1)]\<close>) and represents
  every reference to a cell by its index into that list.
\<close>

type_synonym Board = "Cell list"

definition Board_init :: Board where
  "Board_init = replicate 81 Cell_init"

definition r_of :: "nat \<Rightarrow> nat" where
  "r_of i = i div 9 + 1"

definition c_of :: "nat \<Rightarrow> nat" where
  "c_of i = i mod 9 + 1"

text \<open>\<open>math.ceil(x / 3)\<close> on a positive integer.\<close>

definition ceil3 :: "nat \<Rightarrow> nat" where
  "ceil3 x = (x + 2) div 3"

text \<open>The literal dictionary \<open>boxes_dict\<close>.\<close>

definition boxes_dict :: "nat \<times> nat \<rightharpoonup> nat" where
  "boxes_dict = map_of
     [((1, 1), 1), ((1, 2), 2), ((1, 3), 3), ((2, 1), 4), ((2, 2), 5), ((2, 3), 6),
      ((3, 1), 7), ((3, 2), 8), ((3, 3), 9)]"

text \<open>\<open>boxes_dict[(math.ceil(cell.r/3), math.ceil(cell.c/3))]\<close>. A missing key would be a
  \<open>KeyError\<close>; lemma \<open>box_of_defined\<close> shows that every position of a board has its key,
  so the value 0 given here to a missing key is never used.\<close>

definition box_of :: "nat \<Rightarrow> nat" where
  "box_of i = (case boxes_dict (ceil3 (r_of i), ceil3 (c_of i)) of Some n \<Rightarrow> n | None \<Rightarrow> 0)"

text \<open>The three dictionaries of group views, each key \<open>n\<close> giving the cells of that group in
  the order of \<open>cells\<close>.\<close>

definition rows :: "nat \<Rightarrow> nat list" where
  "rows n = filter (\<lambda>i. r_of i = n) [0..<81]"

definition cols :: "nat \<Rightarrow> nat list" where
  "cols n = filter (\<lambda>i. c_of i = n) [0..<81]"

definition boxes :: "nat \<Rightarrow> nat list" where
  "boxes n = filter (\<lambda>i. box_of i = n) [0..<81]"

text \<open>
  \<open>Board.hits\<close>: \<open>list(set(rows + cols + boxes))\<close> with the cell itself removed. The order
  in which Python lists a set of objects is not fixed; the model takes the order of
  \<open>remdups\<close>. Lemma \<open>hit_loop_pointwise\<close> below shows that the only loop over this list
  does not depend on the order.
\<close>

definition hits :: "nat \<Rightarrow> nat list" where
  "hits i = remove1 i (remdups (rows (r_of i) @ cols (c_of i) @ boxes (box_of i)))"

text \<open>Property \<open>Board.filled_cells\<close>, a list built when the property is read.\<close>

definition filled_cells :: "Board \<Rightarrow> nat list" where
  "filled_cells b = filter (\<lambda>i. filled (b ! i)) [0..<length b]"

section \<open>The two propagation passes\<close>

text \<open>
  The inner loop of \<open>Board.simple_check\<close> for the cell at index \<open>k\<close>:
  \<open>for hit in self.hits(cell): if cell.cell[0] in hit.cell: hit.cell.remove(cell.cell[0])\<close>.
  \<open>cell.cell[0]\<close> is read at every iteration and raises \<open>IndexError\<close> on an empty list.
\<close>

fun hit_loop :: "nat \<Rightarrow> nat list \<Rightarrow> Board \<Rightarrow> error + Board" where
  "hit_loop k [] b = Inr b"
| "hit_loop k (h # hs) b =
     (case cell (b ! k) of
        [] \<Rightarrow> Inl IndexError
      | v # _ \<Rightarrow>
          hit_loop k hs
            (if v \<in> set (cell (b ! h))
             then b[h := (b ! h)\<lparr>cell := remove1 v (cell (b ! h))\<rparr>]
             else b))"

text \<open>The outer loop of \<open>Board.simple_check\<close> over the list \<open>self.filled_cells\<close>, which is
  computed once, before the first iteration.\<close>

fun check_loop :: "nat list \<Rightarrow> Board \<Rightarrow> error + Board" where
  "check_loop [] b = Inr b"
| "check_loop (k # ks) b =
     (if unchecked (b ! k)
      then (case hit_loop k (hits k) b of
              Inl e \<Rightarrow> Inl e
            | Inr b' \<Rightarrow> check_loop ks (b'[k := (b' ! k)\<lparr>unchecked := False\<rparr>]))
      else check_loop ks b)"

definition simple_check :: "Board \<Rightarrow> error + Board" where
  "simple_check b = check_loop (filled_cells b) b"

text \<open>
  One iteration of the loop of \<open>Board.group_check\<close> for the group \<open>g\<close> and the digit \<open>n\<close>:
  \<open>x = [cell for cell in box if n in cell.cell]; if len(x) == 1: x[0].cell = [n]\<close>.
\<close>

definition group_step :: "nat list \<Rightarrow> int \<Rightarrow> Board \<Rightarrow> Board" where
  "group_step g n b =
     (case filter (\<lambda>i. n \<in> set (cell (b ! i))) g of
        [i] \<Rightarrow> b[i := (b ! i)\<lparr>cell := [n]\<rparr>]
      | _ \<Rightarrow> b)"

text \<open>\<open>lis.values()\<close> for \<open>lis\<close> in \<open>[self.rows, self.cols, self.boxes]\<close>, keys 1 to 9 in
  insertion order.\<close>

definition group_lists :: "(nat list) list list" where
  "group_lists = [map rows [1..<10], map cols [1..<10], map boxes [1..<10]]"

text \<open>\<open>itertools.product(lis.values(), range(1,10))\<close> runs through the digits for the first
  group, then for the second, and so on.\<close>

definition group_check :: "Board \<Rightarrow> Board" where
  "group_check b =
     fold (\<lambda>lis. fold (\<lambda>(g, n). group_step g n) (List.product lis [1, 2, 3, 4, 5, 6, 7, 8, 9]))
       group_lists b"

text \<open>\<open>Board.solved\<close>: \<open>[cell for cell in self.cells if cell.filled] == self.cells\<close>.\<close>

definition solved :: "Board \<Rightarrow> bool" where
  "solved b = (filter filled b = b)"

section \<open>Reading and writing the 81-digit string\<close>

text \<open>Python's \<open>str\<close> on an int: decimal digits, with a minus sign for a negative one.\<close>

fun str_nat :: "nat \<Rightarrow> string" where
  "str_nat n =
     (if n < 10 then [''0123456789'' ! n] else str_nat (n div 10) @ [''0123456789'' ! (n mod 10)])"

definition str_int :: "int \<Rightarrow> string" where
  "str_int i = (if i < 0 then CHR ''-'' # str_nat (nat (- i)) else str_nat (nat i))"

text \<open>Property \<open>Board.setup_string\<close>:
  \<open>"".join([str(cell.cell[0]) if cell.filled else "0" for cell in self.cells])\<close>.\<close>

definition setup_string :: "Board \<Rightarrow> string" where
  "setup_string b = concat (map (\<lambda>x. if filled x then str_int (hd (cell x)) else ''0'') b)"

text \<open>\<open>int(fill)\<close> on one character of the text: its value for an ASCII digit, \<open>ValueError\<close>
  otherwise.\<close>

definition int_char :: "char \<Rightarrow> error + int" where
  "int_char ch =
     (case find (\<lambda>(d, v). d = ch)
             (zip ''0123456789'' [0, 1, 2, 3, 4, 5, 6, 7, 8, 9]) of
        Some (d, v) \<Rightarrow> Inr v
      | None \<Rightarrow> Inl ValueError)"

text \<open>\<open>Board.setup\<close>: the loop over \<open>zip(text, cells)\<close>, which stops at the shorter of the
  two: \<open>if int(fill): cell.cell = [int(fill)]\<close>.\<close>

fun setup_loop :: "(char \<times> nat) list \<Rightarrow> Board \<Rightarrow> error + Board" where
  "setup_loop [] b = Inr b"
| "setup_loop ((fill, i) # zs) b =
     (case int_char fill of
        Inl e \<Rightarrow> Inl e
      | Inr v \<Rightarrow> setup_loop zs (if v \<noteq> 0 then b[i := (b ! i)\<lparr>cell := [v]\<rparr>] else b))"

definition Board_setup :: "Board \<Rightarrow> string \<Rightarrow> error + Board" where
  "Board_setup b txt = setup_loop (zip txt [0..<length b]) b"

section \<open>The fixpoint, the disambiguator and the driver\<close>

text \<open>
  \<open>str(board.cells)\<close> prints every cell as \<open>r{r}c{c}: {cell}\<close>. The coordinates never
  change, so two such strings of one board are equal exactly when the lists of candidate
  lists are; the propagation flag is not printed.
\<close>

definition str_cells :: "Board \<Rightarrow> int list list" where
  "str_cells b = map cell b"

text \<open>The first inner \<open>while True\<close> loop of \<open>basic_checks\<close>.\<close>

partial_function (option) simple_loop :: "Board \<Rightarrow> (error + Board) option" where
  "simple_loop b =
     (case simple_check b of
        Inl e \<Rightarrow> Some (Inl e)
      | Inr b' \<Rightarrow> if str_cells b = str_cells b' then Some (Inr b') else simple_loop b')"

text \<open>The second inner \<open>while True\<close> loop of \<open>basic_checks\<close>.\<close>

partial_function (option) group_loop :: "Board \<Rightarrow> Board option" where
  "group_loop b =
     (let b' = group_check b in if str_cells b = str_cells b' then Some b' else group_loop b')"

text \<open>\<open>basic_checks\<close>, the outer \<open>while True\<close> loop. \<open>None\<close> stands for a loop that never
  ends.\<close>

partial_function (option) basic_checks :: "Board \<Rightarrow> (error + Board) option" where
  "basic_checks b =
     Option.bind (simple_loop b) (\<lambda>r1.
       case r1 of
         Inl e \<Rightarrow> Some (Inl e)
       | Inr b1 \<Rightarrow>
           Option.bind (group_loop b1) (\<lambda>b2.
             if str_cells b = str_cells b2 then Some (Inr b2) else basic_checks b2))"

text \<open>
  The scratch board of one trial of \<open>simple_brute_check\<close>, up to the point where the trial
  candidate is written: \<open>new = Board(); new.setup(board.setup_string); basic_checks(new)\<close>.
  \<open>Board()\<close> makes 81 new cell objects, so nothing done to \<open>new\<close> reaches \<open>board\<close>.
\<close>

definition scratch_board :: "Board \<Rightarrow> (error + Board) option" where
  "scratch_board b =
     (case Board_setup Board_init (setup_string b) of
        Inl e \<Rightarrow> Some (Inl e)
      | Inr new \<Rightarrow> basic_checks new)"

text \<open>The body of the \<open>try\<close> for the cell at index \<open>i\<close>: the scratch board, then
  \<open>new[cell.r, cell.c] = [cell.cell[0]]\<close> (\<open>Board.__setitem__\<close> writes the field \<open>cell\<close> only)
  and \<open>basic_checks(new)\<close> again.\<close>

definition trial_new :: "Board \<Rightarrow> nat \<Rightarrow> (error + Board) option" where
  "trial_new b i =
     Option.bind (scratch_board b) (\<lambda>r.
       case r of
         Inl e \<Rightarrow> Some (Inl e)
       | Inr new \<Rightarrow>
           (case cell (b ! i) of
              [] \<Rightarrow> Some (Inl IndexError)
            | v # _ \<Rightarrow> basic_checks (new[i := (new ! i)\<lparr>cell := [v]\<rparr>])))"

text \<open>One iteration of the loop of \<open>simple_brute_check\<close>: \<open>except IndexError\<close> catches that
  exception only and runs \<open>cell.cell = [cell.cell[1]]\<close> on the board itself; without an
  exception the board is left as it is.\<close>

definition trial :: "Board \<Rightarrow> nat \<Rightarrow> (error + Board) option" where
  "trial b i =
     Option.bind (trial_new b i) (\<lambda>r.
       case r of
         Inr new \<Rightarrow> Some (Inr b)
       | Inl IndexError \<Rightarrow>
           (case cell (b ! i) of
              v # w # _ \<Rightarrow> Some (Inr (b[i := (b ! i)\<lparr>cell := [w]\<rparr>]))
            | _ \<Rightarrow> Some (Inl IndexError))
       | Inl ValueError \<Rightarrow> Some (Inl ValueError))"

fun brute_loop :: "nat list \<Rightarrow> Board \<Rightarrow> (error + Board) option" where
  "brute_loop [] b = Some (Inr b)"
| "brute_loop (i # is) b =
     Option.bind (trial b i) (\<lambda>r.
       case r of Inl e \<Rightarrow> Some (Inl e) | Inr b' \<Rightarrow> brute_loop is b')"

text \<open>\<open>simple_brute_check\<close>: the list \<open>almost\<close> is built once, from the board as it is when
  the pass starts.\<close>

definition simple_brute_check :: "Board \<Rightarrow> (error + Board) option" where
  "simple_brute_check b =
     brute_loop (filter (\<lambda>i. length (cell (b ! i)) = 2) [0..<length b]) b"

text \<open>
  One iteration of the \<open>while True\<close> loop of \<open>solve\<close>. \<open>Solved\<close> is the \<open>break\<close> after
  \<open>print("Solved!")\<close>, \<open>Stuck\<close> the \<open>break\<close> of \<open>if prev == str(board.cells)\<close>, and \<open>Again\<close>
  the next iteration. An exception raised by \<open>basic_checks(board)\<close> is not caught.
\<close>

datatype cycle = Solved Board | Stuck Board | Again Board

definition solve_cycle :: "Board \<Rightarrow> (error + cycle) option" where
  "solve_cycle b =
     Option.bind (basic_checks b) (\<lambda>r1.
       case r1 of
         Inl e \<Rightarrow> Some (Inl e)
       | Inr b1 \<Rightarrow>
           if solved b1 then Some (Inr (Solved b1))
           else Option.bind (simple_brute_check b1) (\<lambda>r2.
             case r2 of
               Inl e \<Rightarrow> Some (Inl e)
             | Inr b2 \<Rightarrow>
                 if str_cells b = str_cells b2 then Some (Inr (Stuck b2))
                 else Some (Inr (Again b2))))"

partial_function (option) solve :: "Board \<Rightarrow> (error + cycle) option" where
  "solve b =
     Option.bind (solve_cycle b) (\<lambda>r.
       case r of
         Inr (Again b') \<Rightarrow> solve b'
       | _ \<Rightarrow> Some r)"

text \<open>The measure of the termination argument: the number of candidates on the board.\<close>

definition total :: "Board \<Rightarrow> nat" where
  "total b = sum_list (map (\<lambda>x. length (cell x)) b)"

text \<open>The order in which the passes move a candidate list: it stays as it is, or it gets
  shorter and keeps only values it had.\<close>

definition cell_le :: "int list \<Rightarrow> int list \<Rightarrow> bool" where
  "cell_le c' c = (c' = c \<or> (length c' < length c \<and> set c' \<subseteq> set c))"

definition shrinks :: "Board \<Rightarrow> Board \<Rightarrow> bool" where
  "shrinks b b' = (length b' = length b \<and> (\<forall>i<length b. cell_le (cell (b' ! i)) (cell (b ! i))))"

text \<open>A board to try the passes on: \<open>Board()\<close> with the top left cell set to 1, as
  \<open>setup\<close> leaves it for a text that starts with 1 and goes on with zeros.\<close>

definition ex1 :: Board where
  "ex1 = Board_init[0 := \<lparr>cell = [1], unchecked = True\<rparr>]"

text \<open>Every solved cell has been pushed to its peers already.\<close>

definition all_checked :: "Board \<Rightarrow> bool" where
  "all_checked b = (\<forall>i<length b. filled (b ! i) \<longrightarrow> \<not> unchecked (b ! i))"

text \<open>The board that the fixpoint makes of \<open>ex1\<close>: the 1 is gone from the twenty peers of
  the top left cell, and that cell is marked as propagated.\<close>

definition ex1_fix :: Board where
  "ex1_fix = map (\<lambda>i. if i = 0 then \<lparr>cell = [1], unchecked = False\<rparr>
       else if i \<in> set [3, 4, 5, 6, 7, 8, 27, 36, 45, 54, 63, 72, 1, 2, 9, 10, 11, 18, 19, 20]
       then \<lparr>cell = [2, 3, 4, 5, 6, 7, 8, 9], unchecked = True\<rparr> else Cell_init) [0..<81]"

text \<open>A board for the disambiguator: \<open>Board()\<close> with the top left cell left with the two
  candidates 1 and 2.\<close>

definition ex2 :: Board where
  "ex2 = Board_init[0 := \<lparr>cell = [1, 2], unchecked = True\<rparr>]"



text \<open>\<open>Board()\<close> with the first two cells of the first row both set to 5, as \<open>setup\<close> leaves
  it for a text that starts with 55.\<close>

definition ex4 :: Board where
  "ex4 = Board_init[0 := \<lparr>cell = [5], unchecked = True\<rparr>, 1 := \<lparr>cell = [5], unchecked = True\<rparr>]"

text \<open>Every solved cell holds one of the digits 1 to 9, as on every board made by
  \<open>Board()\<close>, \<open>setup\<close> and the passes.\<close>

definition digits_ok :: "Board \<Rightarrow> bool" where
  "digits_ok b = (\<forall>x\<in>set b. filled x \<longrightarrow> 1 \<le> hd (cell x) \<and> hd (cell x) \<le> 9)"

text \<open>What is left of a board after writing it as 81 digits: the solved cells, all nine
  candidates in every other cell, and no cell marked as propagated.\<close>

definition rebuilt :: "Board \<Rightarrow> Board" where
  "rebuilt b = map (\<lambda>x. if filled x then \<lparr>cell = cell x, unchecked = True\<rparr> else Cell_init) b"










section \<open>Every pass shrinks the board\<close>

lemma nth_upd: "i < length b \<Longrightarrow> b[h := x] ! i = (if i = h then x else b ! i)"
  by (simp add: nth_list_update)

lemma cell_le_refl: "cell_le c c" by (simp add: cell_le_def)

lemma cell_le_trans: "cell_le c'' c' \<Longrightarrow> cell_le c' c \<Longrightarrow> cell_le c'' c"
  by (auto simp: cell_le_def)

lemma cell_le_remove1: "v \<in> set c \<Longrightarrow> cell_le (remove1 v c) c"
proof -
  assume v: "v \<in> set c"
  then have "length (remove1 v c) < length c"
    using length_pos_if_in_set[OF v] by (simp add: length_remove1)
  moreover have "set (remove1 v c) \<subseteq> set c" by (rule set_remove1_subset)
  ultimately show ?thesis by (simp add: cell_le_def)
qed

lemma cell_le_single: "n \<in> set c \<Longrightarrow> cell_le [n] c"
  by (cases c; cases "tl c") (auto simp: cell_le_def)

lemma shrinks_refl: "shrinks b b" by (simp add: shrinks_def cell_le_refl)

lemma shrinks_trans: "shrinks b b' \<Longrightarrow> shrinks b' b'' \<Longrightarrow> shrinks b b''"
  by (auto simp: shrinks_def intro: cell_le_trans)

lemma shrinks_update:
  "cell_le c' (cell (b ! h)) \<Longrightarrow> shrinks b (b[h := (b ! h)\<lparr>cell := c'\<rparr>])"
  by (auto simp: shrinks_def nth_upd cell_le_refl)

lemma shrinks_flag: "shrinks b (b[k := (b ! k)\<lparr>unchecked := f\<rparr>])"
  by (auto simp: shrinks_def nth_upd cell_le_refl)

lemma hit_loop_shrinks: "hit_loop k hs b = Inr b' \<Longrightarrow> shrinks b b'"
proof (induction hs arbitrary: b)
  case Nil
  then show ?case by (simp add: shrinks_refl)
next
  case (Cons h hs)
  then obtain v vs where c: "cell (b ! k) = v # vs" by (cases "cell (b ! k)") auto
  let ?b1 = "if v \<in> set (cell (b ! h)) then b[h := (b ! h)\<lparr>cell := remove1 v (cell (b ! h))\<rparr>] else b"
  from Cons.prems c have "hit_loop k hs ?b1 = Inr b'" by simp
  then have "shrinks ?b1 b'" by (rule Cons.IH)
  moreover have "shrinks b ?b1" by (simp add: shrinks_refl shrinks_update cell_le_remove1)
  ultimately show ?case by (rule shrinks_trans[rotated])
qed

lemma check_loop_shrinks: "check_loop ks b = Inr b' \<Longrightarrow> shrinks b b'"
proof (induction ks arbitrary: b)
  case Nil
  then show ?case by (simp add: shrinks_refl)
next
  case (Cons k ks)
  show ?case
  proof (cases "unchecked (b ! k)")
    case False
    with Cons show ?thesis by simp
  next
    case True
    with Cons.prems obtain b1 where h: "hit_loop k (hits k) b = Inr b1"
      and r: "check_loop ks (b1[k := (b1 ! k)\<lparr>unchecked := False\<rparr>]) = Inr b'"
      by (auto split: sum.splits)
    from h have "shrinks b b1" by (rule hit_loop_shrinks)
    moreover have "shrinks b1 (b1[k := (b1 ! k)\<lparr>unchecked := False\<rparr>])" by (rule shrinks_flag)
    moreover from r have "shrinks (b1[k := (b1 ! k)\<lparr>unchecked := False\<rparr>]) b'" by (rule Cons.IH)
    ultimately show ?thesis by (blast intro: shrinks_trans)
  qed
qed

lemma simple_check_shrinks: "simple_check b = Inr b' \<Longrightarrow> shrinks b b'"
  unfolding simple_check_def by (rule check_loop_shrinks)

lemma group_step_shrinks: "shrinks b (group_step g n b)"
proof (cases "filter (\<lambda>i. n \<in> set (cell (b ! i))) g")
  case Nil
  then show ?thesis by (simp add: group_step_def shrinks_refl)
next
  case (Cons i js)
  then have "i \<in> set (filter (\<lambda>i. n \<in> set (cell (b ! i))) g)" by simp
  then have "n \<in> set (cell (b ! i))" by simp
  then show ?thesis using Cons
    by (cases js) (simp_all add: group_step_def shrinks_refl shrinks_update cell_le_single)
qed

lemma fold_group_step_shrinks: "shrinks b (fold (\<lambda>(g, n). group_step g n) ps b)"
proof (induction ps arbitrary: b)
  case Nil
  show ?case by (simp add: shrinks_refl)
next
  case (Cons p ps)
  obtain g n where p: "p = (g, n)" by (cases p)
  show ?case using shrinks_trans[OF group_step_shrinks Cons.IH] by (simp add: p)
qed

lemma fold_fold_shrinks:
  "shrinks b (fold (\<lambda>lis. fold (\<lambda>(g, n). group_step g n) (f lis)) ls b)"
proof (induction ls arbitrary: b)
  case Nil
  show ?case by (simp add: shrinks_refl)
next
  case (Cons l ls)
  show ?case using shrinks_trans[OF fold_group_step_shrinks Cons.IH] by simp
qed

lemma group_check_shrinks: "shrinks b (group_check b)"
  unfolding group_check_def by (rule fold_fold_shrinks)

lemma total_nth: "total b = (\<Sum>i<length b. length (cell (b ! i)))"
  by (simp add: total_def sum_list_sum_nth atLeast0LessThan)

lemma cell_le_length: "cell_le c' c \<Longrightarrow> length c' \<le> length c"
  by (auto simp: cell_le_def)

lemma shrinks_total: "shrinks b b' \<Longrightarrow> total b' \<le> total b"
  by (auto simp: total_nth shrinks_def intro!: sum_mono cell_le_length)

lemma shrinks_total_less:
  assumes "shrinks b b'" "str_cells b \<noteq> str_cells b'"
  shows "total b' < total b"
proof -
  from assms have len: "length b' = length b" by (simp add: shrinks_def)
  from assms(2) len obtain i where i: "i < length b" "cell (b ! i) \<noteq> cell (b' ! i)"
    by (auto simp: str_cells_def list_eq_iff_nth_eq)
  with assms(1) have "length (cell (b' ! i)) < length (cell (b ! i))"
    by (auto simp: shrinks_def cell_le_def)
  moreover have "\<forall>j\<in>{..<length b}. length (cell (b' ! j)) \<le> length (cell (b ! j))"
    using assms(1) by (auto simp: shrinks_def intro: cell_le_length)
  ultimately have "(\<Sum>j<length b. length (cell (b' ! j))) < (\<Sum>j<length b. length (cell (b ! j)))"
    using i(1) by (intro sum_strict_mono_ex1) auto
  then show ?thesis by (simp add: total_nth len)
qed

section \<open>The loops of the fixpoint return\<close>

lemma simple_loop_returns: "\<exists>r. simple_loop b = Some r"
proof (induction b rule: measure_induct_rule[of total])
  case (less b)
  show ?case
  proof (cases "simple_check b")
    case (Inl e)
    then show ?thesis by (subst simple_loop.simps) simp
  next
    case (Inr b')
    show ?thesis
    proof (cases "str_cells b = str_cells b'")
      case True
      with Inr show ?thesis by (subst simple_loop.simps) simp
    next
      case False
      with Inr have "total b' < total b"
        by (intro shrinks_total_less simple_check_shrinks)
      from less.IH[OF this] False Inr show ?thesis by (subst simple_loop.simps) simp
    qed
  qed
qed

lemma simple_loop_exit:
  "simple_loop b = Some (Inr b') \<Longrightarrow>
     shrinks b b' \<and> (\<exists>b0. simple_check b0 = Inr b' \<and> str_cells b0 = str_cells b')"
proof (induction b rule: measure_induct_rule[of total])
  case (less b)
  from less.prems obtain b1 where b1: "simple_check b = Inr b1"
    by (subst (asm) simple_loop.simps) (auto split: sum.splits)
  then have s1: "shrinks b b1" by (rule simple_check_shrinks)
  show ?case
  proof (cases "str_cells b = str_cells b1")
    case True
    with less.prems b1 have "b' = b1" by (subst (asm) simple_loop.simps) simp
    with b1 True s1 show ?thesis by auto
  next
    case False
    with less.prems b1 have r: "simple_loop b1 = Some (Inr b')"
      by (subst (asm) simple_loop.simps) simp
    from False s1 have "total b1 < total b" by (intro shrinks_total_less)
    from less.IH[OF this r] s1 show ?thesis by (blast intro: shrinks_trans)
  qed
qed

lemma group_loop_returns: "\<exists>r. group_loop b = Some r"
proof (induction b rule: measure_induct_rule[of total])
  case (less b)
  show ?case
  proof (cases "str_cells b = str_cells (group_check b)")
    case True
    then show ?thesis by (subst group_loop.simps) (simp add: Let_def)
  next
    case False
    then have "total (group_check b) < total b"
      by (intro shrinks_total_less group_check_shrinks)
    from less.IH[OF this] False show ?thesis by (subst group_loop.simps) (simp add: Let_def)
  qed
qed

lemma group_loop_exit:
  "group_loop b = Some b' \<Longrightarrow>
     shrinks b b' \<and> (\<exists>b0. group_check b0 = b' \<and> str_cells b0 = str_cells b')"
proof (induction b rule: measure_induct_rule[of total])
  case (less b)
  have s1: "shrinks b (group_check b)" by (rule group_check_shrinks)
  show ?case
  proof (cases "str_cells b = str_cells (group_check b)")
    case True
    with less.prems have "b' = group_check b"
      by (subst (asm) group_loop.simps) (simp add: Let_def)
    with True s1 show ?thesis by auto
  next
    case False
    with less.prems have r: "group_loop (group_check b) = Some b'"
      by (subst (asm) group_loop.simps) (simp add: Let_def)
    from False s1 have "total (group_check b) < total b" by (intro shrinks_total_less)
    from less.IH[OF this r] s1 show ?thesis by (blast intro: shrinks_trans)
  qed
qed

lemma basic_checks_returns: "\<exists>r. basic_checks b = Some r"
proof (induction b rule: measure_induct_rule[of total])
  case (less b)
  obtain r1 where r1: "simple_loop b = Some r1" using simple_loop_returns by blast
  show ?case
  proof (cases r1)
    case (Inl e)
    with r1 show ?thesis by (subst basic_checks.simps) simp
  next
    case (Inr b1)
    obtain b2 where b2: "group_loop b1 = Some b2" using group_loop_returns by blast
    from r1 Inr have "shrinks b b1" by (simp add: simple_loop_exit)
    moreover from b2 have "shrinks b1 b2" by (simp add: group_loop_exit)
    ultimately have s: "shrinks b b2" by (rule shrinks_trans)
    show ?thesis
    proof (cases "str_cells b = str_cells b2")
      case True
      with r1 Inr b2 show ?thesis by (subst basic_checks.simps) simp
    next
      case False
      with s have "total b2 < total b" by (intro shrinks_total_less)
      from less.IH[OF this] False r1 Inr b2 show ?thesis by (subst basic_checks.simps) simp
    qed
  qed
qed

section \<open>The passes, cell by cell\<close>

lemma hit_loop_ok:
  "cell (b ! k) \<noteq> [] \<Longrightarrow> k \<notin> set hs \<Longrightarrow> \<exists>b'. hit_loop k hs b = Inr b' \<and> b' ! k = b ! k"
proof (induction hs arbitrary: b)
  case Nil
  then show ?case by simp
next
  case (Cons h hs)
  then obtain v vs where c: "cell (b ! k) = v # vs" by (cases "cell (b ! k)") auto
  let ?b1 = "if v \<in> set (cell (b ! h)) then b[h := (b ! h)\<lparr>cell := remove1 v (cell (b ! h))\<rparr>] else b"
  from Cons.prems have hk: "h \<noteq> k" by auto
  then have k1: "?b1 ! k = b ! k" by simp
  with Cons.prems have "\<exists>b'. hit_loop k hs ?b1 = Inr b' \<and> b' ! k = ?b1 ! k"
    by (intro Cons.IH) auto
  with k1 c show ?case by simp
qed

lemma hit_loop_err:
  "cell (b ! k) = [] \<Longrightarrow> hs \<noteq> [] \<Longrightarrow> hit_loop k hs b = Inl IndexError"
  by (cases hs) simp_all

lemma hit_loop_pointwise:
  assumes "cell (b ! k) = v # vs" "k \<notin> set hs" "distinct hs"
  shows "\<exists>b'. hit_loop k hs b = Inr b' \<and> length b' = length b \<and>
     (\<forall>i<length b. b' ! i = (if i \<in> set hs then (b ! i)\<lparr>cell := remove1 v (cell (b ! i))\<rparr> else b ! i))"
  using assms
proof (induction hs arbitrary: b)
  case Nil
  then show ?case by simp
next
  case (Cons h hs)
  let ?b1 = "if v \<in> set (cell (b ! h)) then b[h := (b ! h)\<lparr>cell := remove1 v (cell (b ! h))\<rparr>] else b"
  from Cons.prems have hk: "h \<noteq> k" and hh: "h \<notin> set hs" by auto
  have e: "?b1 = b[h := (b ! h)\<lparr>cell := remove1 v (cell (b ! h))\<rparr>]"
    by (simp add: remove1_idem)
  have k1: "cell (?b1 ! k) = v # vs" using hk Cons.prems(1) by simp
  from Cons.IH[OF k1] Cons.prems obtain b' where b': "hit_loop k hs ?b1 = Inr b'"
    "length b' = length ?b1"
    "\<forall>i<length ?b1. b' ! i = (if i \<in> set hs then (?b1 ! i)\<lparr>cell := remove1 v (cell (?b1 ! i))\<rparr> else ?b1 ! i)"
    by auto
  have "hit_loop k (h # hs) b = Inr b'" using b'(1) Cons.prems(1) by simp
  moreover have "length b' = length b" using b'(2) by simp
  moreover have "\<forall>i<length b. b' ! i = (if i \<in> set (h # hs) then (b ! i)\<lparr>cell := remove1 v (cell (b ! i))\<rparr> else b ! i)"
  proof (intro allI impI)
    fix i assume i: "i < length b"
    then have "i < length ?b1" by simp
    with b'(3) have "b' ! i = (if i \<in> set hs then (?b1 ! i)\<lparr>cell := remove1 v (cell (?b1 ! i))\<rparr> else ?b1 ! i)" by blast
    then show "b' ! i = (if i \<in> set (h # hs) then (b ! i)\<lparr>cell := remove1 v (cell (b ! i))\<rparr> else b ! i)"
      unfolding e using i hh by (cases "i = h") auto
  qed
  ultimately show ?case by blast
qed

lemma hits_distinct: "distinct (hits k)"
  by (simp add: hits_def distinct_remove1)

lemma hits_irrefl: "k \<notin> set (hits k)"
  by (simp add: hits_def)

lemma filled_cells_none: "\<forall>x\<in>set b. \<not> filled x \<Longrightarrow> filled_cells b = []"
  by (auto simp: filled_cells_def filter_empty_conv)

lemma simple_check_Board_init: "simple_check Board_init = Inr Board_init"
proof -
  have "\<forall>x\<in>set Board_init. \<not> filled x"
    by (simp add: Board_init_def Cell_init_def filled_def)
  then show ?thesis by (simp add: simple_check_def filled_cells_none)
qed

lemma group_step_single:
  "i < length b \<Longrightarrow>
     cell (group_step g n b ! i) = cell (b ! i) \<or> (n \<in> set (cell (b ! i)) \<and> cell (group_step g n b ! i) = [n])"
proof (cases "filter (\<lambda>i. n \<in> set (cell (b ! i))) g")
  case Nil
  then show ?thesis by (simp add: group_step_def)
next
  case (Cons j js)
  assume i: "i < length b"
  from Cons have "j \<in> set (filter (\<lambda>i. n \<in> set (cell (b ! i))) g)" by simp
  then have "n \<in> set (cell (b ! j))" by simp
  then show ?thesis using Cons i
    by (cases js) (auto simp: group_step_def nth_upd)
qed

lemma length_group_step: "length (group_step g n b) = length b"
  by (simp add: group_step_def split: list.splits)

lemma fold_group_step_single:
  "i < length b \<Longrightarrow>
     cell (fold (\<lambda>(g, n). group_step g n) ps b ! i) = cell (b ! i) \<or>
     (\<exists>n\<in>set (cell (b ! i)). cell (fold (\<lambda>(g, n). group_step g n) ps b ! i) = [n])"
proof (induction ps arbitrary: b)
  case Nil
  then show ?case by simp
next
  case (Cons p ps)
  obtain g n where p: "p = (g, n)" by (cases p)
  let ?b1 = "group_step g n b"
  from Cons.prems have i1: "i < length ?b1" by (simp add: length_group_step)
  from Cons.IH[OF i1] group_step_single[OF Cons.prems, of g n] show ?case
    by (auto simp: p)
qed

lemma length_fold_group_step: "length (fold (\<lambda>(g, n). group_step g n) ps b) = length b"
  by (induction ps arbitrary: b) (auto simp: length_group_step)

lemma fold_fold_single:
  "i < length b \<Longrightarrow>
     cell (fold (\<lambda>lis. fold (\<lambda>(g, n). group_step g n) (f lis)) ls b ! i) = cell (b ! i) \<or>
     (\<exists>n\<in>set (cell (b ! i)). cell (fold (\<lambda>lis. fold (\<lambda>(g, n). group_step g n) (f lis)) ls b ! i) = [n])"
proof (induction ls arbitrary: b)
  case Nil
  then show ?case by simp
next
  case (Cons l ls)
  let ?b1 = "fold (\<lambda>(g, n). group_step g n) (f l) b"
  from Cons.prems have i1: "i < length ?b1" by (simp add: length_fold_group_step)
  from Cons.IH[OF i1] fold_group_step_single[OF Cons.prems, of "f l"] show ?case by auto
qed

lemma group_check_single:
  "i < length b \<Longrightarrow>
     cell (group_check b ! i) = cell (b ! i) \<or> (\<exists>n\<in>set (cell (b ! i)). cell (group_check b ! i) = [n])"
  unfolding group_check_def by (rule fold_fold_single)

lemma length_Board_init: "length Board_init = 81" by (simp add: Board_init_def)

lemma ex1_simple_check: "\<exists>b'. simple_check ex1 = Inr b'"
proof -
  have len: "length ex1 = 81" by (simp add: ex1_def length_Board_init)
  have f: "filled_cells ex1 = [0]"
    unfolding filled_cells_def len ex1_def Board_init_def
    by (simp add: upt_rec[of 0] filter_empty_conv filled_def Cell_init_def nth_upd)
  have c: "cell (ex1 ! 0) \<noteq> []" "unchecked (ex1 ! 0)" by (simp_all add: ex1_def Board_init_def)
  from hit_loop_ok[OF c(1) hits_irrefl] obtain b1 where "hit_loop 0 (hits 0) ex1 = Inr b1" by blast
  then show ?thesis using c(2) by (simp add: simple_check_def f)
qed

section \<open>What the fixpoint returns\<close>

lemma Cell_eqI: "cell x = cell y \<Longrightarrow> unchecked x = unchecked y \<Longrightarrow> (x::Cell) = y"
  by (cases x; cases y) simp

lemma board_eqI:
  assumes "str_cells b = str_cells b'" "map unchecked b = map unchecked b'"
  shows "b = b'"
proof (rule nth_equalityI)
  from assms(1) show len: "length b = length b'" by (metis length_map str_cells_def)
  fix i assume i: "i < length b"
  from assms(1) i len have "cell (b ! i) = cell (b' ! i)"
    by (metis nth_map str_cells_def)
  moreover from assms(2) i len have "unchecked (b ! i) = unchecked (b' ! i)"
    by (metis nth_map)
  ultimately show "b ! i = b' ! i" by (rule Cell_eqI)
qed

lemma flags_upd_cell: "map unchecked (b[i := (b ! i)\<lparr>cell := c\<rparr>]) = map unchecked b"
  by (auto simp: list_eq_iff_nth_eq nth_upd)

lemma flags_group_step: "map unchecked (group_step g n b) = map unchecked b"
  by (simp add: group_step_def flags_upd_cell split: list.splits)

lemma flags_fold_group_step:
  "map unchecked (fold (\<lambda>(g, n). group_step g n) ps b) = map unchecked b"
  by (induction ps arbitrary: b) (auto simp: flags_group_step)

lemma flags_fold_fold:
  "map unchecked (fold (\<lambda>lis. fold (\<lambda>(g, n). group_step g n) (f lis)) ls b) = map unchecked b"
  by (induction ls arbitrary: b) (auto simp: flags_fold_group_step)

lemma flags_group_check: "map unchecked (group_check b) = map unchecked b"
  unfolding group_check_def by (rule flags_fold_fold)

lemma group_check_same: "str_cells b = str_cells (group_check b) \<Longrightarrow> group_check b = b"
  by (rule board_eqI[symmetric]) (simp_all add: flags_group_check)

lemma group_loop_fix: "group_check b = b \<Longrightarrow> group_loop b = Some b"
  by (subst group_loop.simps) (simp add: Let_def)

lemma group_loop_result:
  "group_loop b = Some b' \<Longrightarrow> map unchecked b' = map unchecked b \<and> group_check b' = b'"
proof (induction b rule: measure_induct_rule[of total])
  case (less b)
  show ?case
  proof (cases "str_cells b = str_cells (group_check b)")
    case True
    with less.prems have "b' = group_check b"
      by (subst (asm) group_loop.simps) (simp add: Let_def)
    moreover from True have "group_check b = b" by (rule group_check_same)
    ultimately show ?thesis by simp
  next
    case False
    with less.prems have r: "group_loop (group_check b) = Some b'"
      by (subst (asm) group_loop.simps) (simp add: Let_def)
    from False have "total (group_check b) < total b"
      by (intro shrinks_total_less group_check_shrinks)
    from less.IH[OF this r] show ?thesis by (simp add: flags_group_check)
  qed
qed

lemma hit_loop_flags: "hit_loop k hs b = Inr b' \<Longrightarrow> map unchecked b' = map unchecked b"
proof (induction hs arbitrary: b)
  case Nil
  then show ?case by simp
next
  case (Cons h hs)
  then obtain v vs where c: "cell (b ! k) = v # vs" by (cases "cell (b ! k)") auto
  let ?b1 = "if v \<in> set (cell (b ! h)) then b[h := (b ! h)\<lparr>cell := remove1 v (cell (b ! h))\<rparr>] else b"
  from Cons.prems c have "hit_loop k hs ?b1 = Inr b'" by simp
  then have "map unchecked b' = map unchecked ?b1" by (rule Cons.IH)
  then show ?case by (simp add: flags_upd_cell)
qed

lemma check_loop_flags:
  "check_loop ks b = Inr b' \<Longrightarrow> i < length b \<Longrightarrow>
     (i \<in> set ks \<or> \<not> unchecked (b ! i)) \<Longrightarrow> \<not> unchecked (b' ! i)"
proof (induction ks arbitrary: b)
  case Nil
  then show ?case by simp
next
  case (Cons k ks)
  show ?case
  proof (cases "unchecked (b ! k)")
    case False
    with Cons.prems have "check_loop ks b = Inr b'" "i \<in> set ks \<or> \<not> unchecked (b ! i)" by auto
    with Cons.IH Cons.prems(2) show ?thesis by blast
  next
    case True
    with Cons.prems(1) obtain b1 where h: "hit_loop k (hits k) b = Inr b1"
      and r: "check_loop ks (b1[k := (b1 ! k)\<lparr>unchecked := False\<rparr>]) = Inr b'"
      by (auto split: sum.splits)
    let ?b2 = "b1[k := (b1 ! k)\<lparr>unchecked := False\<rparr>]"
    from h have fl: "map unchecked b1 = map unchecked b" by (rule hit_loop_flags)
    then have len: "length b1 = length b" by (metis length_map)
    with Cons.prems(2) have i2: "i < length ?b2" by simp
    from fl Cons.prems(2) len have "unchecked (b1 ! i) = unchecked (b ! i)" by (metis nth_map)
    with Cons.prems(2,3) len have "i \<in> set ks \<or> \<not> unchecked (?b2 ! i)"
      by (cases "i = k") auto
    from Cons.IH[OF r i2 this] show ?thesis .
  qed
qed

lemma check_loop_skip: "\<forall>k\<in>set ks. \<not> unchecked (b ! k) \<Longrightarrow> check_loop ks b = Inr b"
  by (induction ks) auto

lemma simple_check_fix: "all_checked b \<Longrightarrow> simple_check b = Inr b"
  unfolding simple_check_def
  by (rule check_loop_skip) (auto simp: all_checked_def filled_cells_def)

lemma simple_loop_fix: "all_checked b \<Longrightarrow> simple_loop b = Some (Inr b)"
  by (subst simple_loop.simps) (simp add: simple_check_fix)

lemma simple_check_all_checked:
  assumes "simple_check b = Inr b'" "str_cells b = str_cells b'"
  shows "all_checked b'"
  unfolding all_checked_def
proof (intro allI impI)
  fix i assume i: "i < length b'" and f: "filled (b' ! i)"
  from assms(2) have len: "length b = length b'" by (metis length_map str_cells_def)
  from assms(2) i len have "cell (b ! i) = cell (b' ! i)" by (metis nth_map str_cells_def)
  with f have "filled (b ! i)" by (simp add: filled_def)
  with i len have "i \<in> set (filled_cells b)" by (simp add: filled_cells_def)
  with assms(1) i len show "\<not> unchecked (b' ! i)"
    unfolding simple_check_def by (intro check_loop_flags[of "filled_cells b" b b' i]) auto
qed

lemma simple_loop_all_checked: "simple_loop b = Some (Inr b') \<Longrightarrow> all_checked b'"
  using simple_loop_exit[of b b'] simple_check_all_checked by blast

lemma shrinks_same_total:
  assumes "shrinks b b'" "total b \<le> total b'"
  shows "str_cells b = str_cells b'"
proof (rule ccontr)
  assume "str_cells b \<noteq> str_cells b'"
  with assms(1) have "total b' < total b" by (rule shrinks_total_less)
  with assms(2) show False by simp
qed

lemma total_str_cells: "total b = sum_list (map length (str_cells b))"
  by (simp add: total_def str_cells_def comp_def)

lemma basic_checks_exit:
  "basic_checks b = Some (Inr b') \<Longrightarrow>
     \<exists>b0 b1. simple_loop b0 = Some (Inr b1) \<and> group_loop b1 = Some b' \<and> str_cells b0 = str_cells b'"
proof (induction b rule: measure_induct_rule[of total])
  case (less b)
  obtain r1 where r1: "simple_loop b = Some r1" using simple_loop_returns by blast
  have "\<exists>b1. r1 = Inr b1"
  proof (cases r1)
    case (Inl e)
    with r1 less.prems show ?thesis by (subst (asm) basic_checks.simps) simp
  qed simp
  then obtain b1 where "r1 = Inr b1" by blast
  moreover obtain b2 where "group_loop b1 = Some b2" using group_loop_returns by blast
  ultimately have l: "simple_loop b = Some (Inr b1)" "group_loop b1 = Some b2"
    using r1 by simp_all
  show ?case
  proof (cases "str_cells b = str_cells b2")
    case True
    with less.prems l have "b' = b2" by (subst (asm) basic_checks.simps) simp
    with l True show ?thesis by blast
  next
    case False
    with less.prems l have r: "basic_checks b2 = Some (Inr b')"
      by (subst (asm) basic_checks.simps) simp
    from l have "shrinks b b2" using simple_loop_exit group_loop_exit shrinks_trans by blast
    with False have "total b2 < total b" by (intro shrinks_total_less)
    from less.IH[OF this r] show ?thesis .
  qed
qed

lemma basic_checks_result:
  assumes "basic_checks b = Some (Inr b')"
  shows "all_checked b' \<and> group_check b' = b'"
proof -
  from basic_checks_exit[OF assms] obtain b0 b1 where
    l: "simple_loop b0 = Some (Inr b1)" "group_loop b1 = Some b'" "str_cells b0 = str_cells b'"
    by blast
  from l(1) have s1: "shrinks b0 b1" by (simp add: simple_loop_exit)
  from l(2) have s2: "shrinks b1 b'" by (simp add: group_loop_exit)
  from l(3) have "total b0 = total b'" by (simp only: total_str_cells)
  with shrinks_total[OF s1] have "total b1 \<le> total b'" by simp
  with s2 have "str_cells b1 = str_cells b'" by (rule shrinks_same_total)
  moreover from l(2) have g: "map unchecked b' = map unchecked b1" "group_check b' = b'"
    by (simp_all add: group_loop_result)
  ultimately have "b1 = b'" by (intro board_eqI) simp_all
  with l(1) g(2) show ?thesis by (simp add: simple_loop_all_checked)
qed

lemma basic_checks_fix: "all_checked b \<Longrightarrow> group_check b = b \<Longrightarrow> basic_checks b = Some (Inr b)"
  by (subst basic_checks.simps) (simp add: simple_loop_fix group_loop_fix)

lemma group_lists_eq: "group_lists = [[[0, 1, 2, 3, 4, 5, 6, 7, 8], [9, 10, 11, 12, 13, 14, 15, 16, 17], [18, 19, 20, 21, 22, 23, 24, 25, 26], [27, 28, 29, 30, 31, 32, 33, 34, 35], [36, 37, 38, 39, 40, 41, 42, 43, 44], [45, 46, 47, 48, 49, 50, 51, 52, 53], [54, 55, 56, 57, 58, 59, 60, 61, 62], [63, 64, 65, 66, 67, 68, 69, 70, 71], [72, 73, 74, 75, 76, 77, 78, 79, 80]], [[0, 9, 18, 27, 36, 45, 54, 63, 72], [1, 10, 19, 28, 37, 46, 55, 64, 73], [2, 11, 20, 29, 38, 47, 56, 65, 74], [3, 12, 21, 30, 39, 48, 57, 66, 75], [4, 13, 22, 31, 40, 49, 58, 67, 76], [5, 14, 23, 32, 41, 50, 59, 68, 77], [6, 15, 24, 33, 42, 51, 60, 69, 78], [7, 16, 25, 34, 43, 52, 61, 70, 79], [8, 17, 26, 35, 44, 53, 62, 71, 80]], [[0, 1, 2, 9, 10, 11, 18, 19, 20], [3, 4, 5, 12, 13, 14, 21, 22, 23], [6, 7, 8, 15, 16, 17, 24, 25, 26], [27, 28, 29, 36, 37, 38, 45, 46, 47], [30, 31, 32, 39, 40, 41, 48, 49, 50], [33, 34, 35, 42, 43, 44, 51, 52, 53], [54, 55, 56, 63, 64, 65, 72, 73, 74], [57, 58, 59, 66, 67, 68, 75, 76, 77], [60, 61, 62, 69, 70, 71, 78, 79, 80]]]"
  by code_simp

lemma group_lists_shape: "lis \<in> set group_lists \<Longrightarrow> g \<in> set lis \<Longrightarrow> length g = 9 \<and> (\<forall>i\<in>set g. i < 81)"
  unfolding group_lists_eq by auto

lemma fold_id: "(\<And>p. p \<in> set ps \<Longrightarrow> f p b = b) \<Longrightarrow> fold f ps b = b"
  by (induction ps) auto

lemma group_step_Board_init:
  assumes "length g = 9" "\<forall>i\<in>set g. i < 81" "n \<in> {1, 2, 3, 4, 5, 6, 7, 8, 9}"
  shows "group_step g n Board_init = Board_init"
proof -
  have "\<forall>i\<in>set g. n \<in> set (cell (Board_init ! i))"
    using assms(2,3) by (auto simp: Board_init_def Cell_init_def)
  then have "filter (\<lambda>i. n \<in> set (cell (Board_init ! i))) g = g" by (simp add: filter_id_conv)
  moreover from assms(1) obtain x y zs where "g = x # y # zs"
    by (cases g; cases "tl g") auto
  ultimately show ?thesis by (simp add: group_step_def)
qed

lemma group_check_Board_init: "group_check Board_init = Board_init"
  unfolding group_check_def
  by (intro fold_id) (auto simp: group_lists_shape group_step_Board_init)

lemma all_checked_Board_init: "all_checked Board_init"
  by (simp add: all_checked_def Board_init_def Cell_init_def filled_def)

lemma basic_checks_Board_init: "basic_checks Board_init = Some (Inr Board_init)"
  by (rule basic_checks_fix[OF all_checked_Board_init group_check_Board_init])

section \<open>The fixpoint of the board with one clue\<close>

lemma hits_0: "hits 0 = [3, 4, 5, 6, 7, 8, 27, 36, 45, 54, 63, 72, 1, 2, 9, 10, 11, 18, 19, 20]"
  by code_simp

lemma length_ex1: "length ex1 = 81" by (simp add: ex1_def length_Board_init)

lemma length_ex1_fix: "length ex1_fix = 81" by (simp add: ex1_fix_def)

lemma nth_ex1: "i < 81 \<Longrightarrow> ex1 ! i = (if i = 0 then \<lparr>cell = [1], unchecked = True\<rparr> else Cell_init)"
  by (simp add: ex1_def Board_init_def nth_upd)

lemma nth_ex1_fix:
  "i < 81 \<Longrightarrow> ex1_fix ! i = (if i = 0 then \<lparr>cell = [1], unchecked = False\<rparr>
       else if i \<in> set [3, 4, 5, 6, 7, 8, 27, 36, 45, 54, 63, 72, 1, 2, 9, 10, 11, 18, 19, 20]
       then \<lparr>cell = [2, 3, 4, 5, 6, 7, 8, 9], unchecked = True\<rparr> else Cell_init)"
  unfolding ex1_fix_def by (simp del: set_simps upt_Suc)

lemma filled_cells_ex1: "filled_cells ex1 = [0]"
  unfolding filled_cells_def length_ex1 ex1_def Board_init_def
  by (simp add: upt_rec[of 0] filter_empty_conv filled_def Cell_init_def nth_upd)

lemma simple_check_ex1: "simple_check ex1 = Inr ex1_fix"
proof -
  have c: "cell (ex1 ! 0) = 1 # []" by (simp add: nth_ex1)
  from hit_loop_pointwise[OF c hits_irrefl hits_distinct] obtain b1 where
    b1: "hit_loop 0 (hits 0) ex1 = Inr b1" "length b1 = length ex1"
      "\<forall>i<length ex1. b1 ! i = (if i \<in> set (hits 0) then (ex1 ! i)\<lparr>cell := remove1 1 (cell (ex1 ! i))\<rparr> else ex1 ! i)"
    by blast
  have "b1[0 := (b1 ! 0)\<lparr>unchecked := False\<rparr>] = ex1_fix"
  proof (rule nth_equalityI)
    show "length (b1[0 := (b1 ! 0)\<lparr>unchecked := False\<rparr>]) = length ex1_fix"
      by (simp add: b1(2) length_ex1 length_ex1_fix)
    fix i assume "i < length (b1[0 := (b1 ! 0)\<lparr>unchecked := False\<rparr>])"
    then have i: "i < 81" by (simp add: b1(2) length_ex1)
    then have e: "b1 ! i = (if i \<in> set (hits 0) then (ex1 ! i)\<lparr>cell := remove1 1 (cell (ex1 ! i))\<rparr> else ex1 ! i)"
      using b1(3) by (simp add: length_ex1)
    have z: "b1 ! 0 = ex1 ! 0" using b1(3) hits_irrefl[of 0] by (simp add: length_ex1)
    show "b1[0 := (b1 ! 0)\<lparr>unchecked := False\<rparr>] ! i = ex1_fix ! i"
    proof (cases "i = 0")
      case True
      then show ?thesis using i z by (simp add: b1(2) length_ex1 nth_ex1 nth_ex1_fix)
    next
      case False
      then show ?thesis using i e
        by (simp add: nth_ex1 nth_ex1_fix[OF i] hits_0 Cell_init_def del: set_simps)
    qed
  qed
  with b1(1) show ?thesis by (simp add: simple_check_def filled_cells_ex1 nth_ex1)
qed

lemma all_checked_ex1_fix: "all_checked ex1_fix"
  unfolding all_checked_def length_ex1_fix
  by (auto simp: nth_ex1_fix filled_def Cell_init_def simp del: set_simps split: if_splits)


lemma upd_same: "i < length b \<Longrightarrow> cell (b ! i) = c \<Longrightarrow> b[i := (b ! i)\<lparr>cell := c\<rparr>] = b"
  by (metis Cell.update_convs(1) Cell.surjective Cell.select_convs(1) list_update_id Cell_eqI Cell.select_convs(2))

lemma upd_ex1_fix: "ex1_fix[0 := \<lparr>cell = [1], unchecked = False\<rparr>] = ex1_fix"
  using list_update_id[of ex1_fix 0] by (simp add: nth_ex1_fix)

lemma group_steps_ex1_fix:
  "\<forall>lis\<in>set group_lists. \<forall>p\<in>set (List.product lis [1, 2, 3, 4, 5, 6, 7, 8, 9]).
      (case p of (g, n) \<Rightarrow> group_step g n) ex1_fix = ex1_fix"
  unfolding group_lists_eq
  by (simp add: group_step_def nth_ex1_fix Cell_init_def upd_ex1_fix)

lemma group_check_ex1_fix: "group_check ex1_fix = ex1_fix"
  unfolding group_check_def
  by (intro fold_id) (use group_steps_ex1_fix in blast)+

lemma basic_checks_ex1_fix: "basic_checks ex1_fix = Some (Inr ex1_fix)"
  by (rule basic_checks_fix[OF all_checked_ex1_fix group_check_ex1_fix])

lemma str_cells_ex1: "str_cells ex1 \<noteq> str_cells ex1_fix"
proof
  assume "str_cells ex1 = str_cells ex1_fix"
  then have "map cell ex1 ! 1 = map cell ex1_fix ! 1" by (simp add: str_cells_def)
  then show False by (simp add: length_ex1 length_ex1_fix nth_ex1 nth_ex1_fix Cell_init_def)
qed

lemma basic_checks_ex1: "basic_checks ex1 = Some (Inr ex1_fix)"
proof -
  have 1: "simple_loop ex1 = Some (Inr ex1_fix)"
    by (subst simple_loop.simps)
       (simp add: simple_check_ex1 str_cells_ex1 simple_loop_fix all_checked_ex1_fix)
  have 2: "group_loop ex1_fix = Some ex1_fix" by (rule group_loop_fix[OF group_check_ex1_fix])
  show ?thesis
    by (subst basic_checks.simps) (simp add: 1 2 str_cells_ex1 basic_checks_ex1_fix)
qed

section \<open>One trial and one cycle of the driver on the example boards\<close>

lemma int_char_0: "int_char CHR ''0'' = Inr 0"
  by (simp add: int_char_def)

lemma setup_loop_zeros: "\<forall>p\<in>set zs. fst p = CHR ''0'' \<Longrightarrow> setup_loop zs b = Inr b"
  by (induction zs) (auto simp: int_char_0)

lemma setup_string_unfilled:
  "\<forall>x\<in>set b. \<not> filled x \<Longrightarrow> setup_string b = replicate (length b) CHR ''0''"
  by (induction b) (auto simp: setup_string_def)

lemma Board_setup_zeros: "Board_setup b (replicate n CHR ''0'') = Inr b"
  unfolding Board_setup_def by (rule setup_loop_zeros) (auto dest: set_zip_leftD)

lemma scratch_board_unfilled:
  "\<forall>x\<in>set b. \<not> filled x \<Longrightarrow> scratch_board b = Some (Inr Board_init)"
  by (simp add: scratch_board_def setup_string_unfilled Board_setup_zeros basic_checks_Board_init)

lemma ex2_unfilled: "\<forall>x\<in>set ex2. \<not> filled x"
proof
  fix x assume "x \<in> set ex2"
  then have "x \<in> insert \<lparr>cell = [1, 2], unchecked = True\<rparr> (set Board_init)"
    unfolding ex2_def using set_update_subset_insert by fast
  then show "\<not> filled x" by (auto simp: Board_init_def filled_def Cell_init_def)
qed

lemma nth_ex2_0: "ex2 ! 0 = \<lparr>cell = [1, 2], unchecked = True\<rparr>"
  by (simp add: ex2_def Board_init_def)

lemma trial_new_ex2: "trial_new ex2 0 = Some (Inr ex1_fix)"
proof -
  have "Board_init[0 := (Board_init ! 0)\<lparr>cell := [1]\<rparr>] = ex1"
    by (simp add: ex1_def Board_init_def Cell_init_def)
  then show ?thesis
    by (simp add: trial_new_def scratch_board_unfilled[OF ex2_unfilled] nth_ex2_0 basic_checks_ex1)
qed

lemma solved_iff: "solved b = (\<forall>x\<in>set b. filled x)"
  by (simp add: solved_def filter_id_conv)

lemma not_solved_ex1_fix: "\<not> solved ex1_fix"
proof
  assume "solved ex1_fix"
  moreover have "ex1_fix ! 1 \<in> set ex1_fix" by (intro nth_mem) (simp add: length_ex1_fix)
  ultimately have "filled (ex1_fix ! 1)" by (simp add: solved_iff)
  then show False by (simp add: nth_ex1_fix filled_def)
qed

lemma simple_brute_check_ex1_fix: "simple_brute_check ex1_fix = Some (Inr ex1_fix)"
proof -
  have "\<forall>i<81. length (cell (ex1_fix ! i)) \<noteq> 2"
    by (auto simp: nth_ex1_fix Cell_init_def simp del: set_simps)
  then have "filter (\<lambda>i. length (cell (ex1_fix ! i)) = 2) [0..<length ex1_fix] = []"
    by (simp add: filter_empty_conv length_ex1_fix)
  then show ?thesis by (simp add: simple_brute_check_def)
qed

lemma solve_cycle_ex1: "solve_cycle ex1 = Some (Inr (Again ex1_fix))"
  by (simp add: solve_cycle_def basic_checks_ex1 not_solved_ex1_fix simple_brute_check_ex1_fix
      str_cells_ex1)

lemma solve_cycle_ex1_fix: "solve_cycle ex1_fix = Some (Inr (Stuck ex1_fix))"
  by (simp add: solve_cycle_def basic_checks_ex1_fix not_solved_ex1_fix simple_brute_check_ex1_fix)

lemma setup_string_cong:
  assumes "length b = length b'"
    and "\<forall>i<length b. filled (b ! i) = filled (b' ! i) \<and> (filled (b ! i) \<longrightarrow> cell (b ! i) = cell (b' ! i))"
  shows "setup_string b = setup_string b'"
proof -
  have "map (\<lambda>x. if filled x then str_int (hd (cell x)) else ''0'') b =
        map (\<lambda>x. if filled x then str_int (hd (cell x)) else ''0'') b'"
    using assms by (intro nth_equalityI) auto
  then show ?thesis by (simp add: setup_string_def)
qed

lemma setup_string_ex1: "setup_string ex1_fix = setup_string ex1"
  by (rule setup_string_cong)
     (auto simp: length_ex1 length_ex1_fix nth_ex1 nth_ex1_fix filled_def Cell_init_def simp del: set_simps)

lemma str_cells_setup_string: "str_cells b = str_cells b' \<Longrightarrow> setup_string b = setup_string b'"
proof -
  assume a: "str_cells b = str_cells b'"
  then have len: "length b = length b'" by (metis length_map str_cells_def)
  have "\<forall>i<length b. cell (b ! i) = cell (b' ! i)"
    using a len by (metis nth_map str_cells_def)
  with len show ?thesis by (intro setup_string_cong) (auto simp: filled_def)
qed

lemma Board_setup_ex1: "Board_setup Board_init (CHR ''1'' # replicate 80 CHR ''0'') = Inr ex1"
proof -
  have "int_char CHR ''1'' = Inr 1" by (simp add: int_char_def)
  moreover have "setup_loop (zip (replicate 80 CHR ''0'') [1..<81]) ex1 = Inr ex1"
    by (rule setup_loop_zeros) (auto dest: set_zip_leftD)
  moreover have "Board_init[0 := (Board_init ! 0)\<lparr>cell := [1]\<rparr>] = ex1"
    by (simp add: ex1_def Board_init_def Cell_init_def)
  ultimately show ?thesis
    by (simp add: Board_setup_def length_Board_init upt_rec[of 0 81])
qed

section \<open>When the elimination pass raises\<close>

lemma hit_loop_error: "hit_loop k hs b = Inl e \<Longrightarrow> e = IndexError"
proof (induction hs arbitrary: b)
  case Nil
  then show ?case by simp
next
  case (Cons h hs)
  then show ?case by (cases "cell (b ! k)") auto
qed

lemma check_loop_error: "check_loop ks b = Inl e \<Longrightarrow> e = IndexError"
proof (induction ks arbitrary: b)
  case Nil
  then show ?case by simp
next
  case (Cons k ks)
  then show ?case by (auto split: if_splits sum.splits dest: hit_loop_error)
qed

lemma hits_same_row:
  assumes "j < 81" "k \<noteq> j" "r_of j = r_of k"
  shows "j \<in> set (hits k)"
proof -
  from assms(1,3) have "j \<in> set (rows (r_of k))" by (simp add: rows_def)
  then have "j \<in> set (remdups (rows (r_of k) @ cols (c_of k) @ boxes (box_of k)))" by simp
  with assms(2) show ?thesis by (simp add: hits_def)
qed

lemma cell_le_single_cases: "cell_le x [v] \<Longrightarrow> x = [v] \<or> x = []"
  by (auto simp: cell_le_def)

lemma cell_le_Nil: "cell_le x [] \<Longrightarrow> x = []"
  by (auto simp: cell_le_def)

lemma shrinks_nth: "shrinks b b' \<Longrightarrow> i < length b \<Longrightarrow> cell_le (cell (b' ! i)) (cell (b ! i))"
  by (simp add: shrinks_def)

lemma flags_nth: "map unchecked b' = map unchecked b \<Longrightarrow> i < length b \<Longrightarrow> unchecked (b' ! i) = unchecked (b ! i)"
  by (metis length_map nth_map)

text \<open>An unchecked cell of the list that is empty makes the loop fail.\<close>

lemma check_loop_empty:
  "j \<in> set ks \<Longrightarrow> j < length c \<Longrightarrow> unchecked (c ! j) \<Longrightarrow> cell (c ! j) = [] \<Longrightarrow>
     hits j \<noteq> [] \<Longrightarrow> check_loop ks c = Inl IndexError"
proof (induction ks arbitrary: c)
  case Nil
  then show ?case by simp
next
  case (Cons m ks)
  show ?case
  proof (cases "unchecked (c ! m)")
    case False
    with Cons.prems have "j \<noteq> m" by auto
    with Cons False show ?thesis by simp
  next
    case True
    show ?thesis
    proof (cases "hit_loop m (hits m) c")
      case (Inl e)
      with True show ?thesis by (simp add: hit_loop_error[OF Inl])
    next
      case (Inr c1)
      have sh: "shrinks c c1" using Inr by (rule hit_loop_shrinks)
      have fl: "map unchecked c1 = map unchecked c" using Inr by (rule hit_loop_flags)
      have jm: "j \<noteq> m"
      proof
        assume "j = m"
        with Cons.prems have "hit_loop m (hits m) c = Inl IndexError" by (simp add: hit_loop_err)
        with Inr show False by simp
      qed
      let ?c2 = "c1[m := (c1 ! m)\<lparr>unchecked := False\<rparr>]"
      from sh have len: "length c1 = length c" by (simp add: shrinks_def)
      have "cell (?c2 ! j) = []"
        using shrinks_nth[OF sh Cons.prems(2)] Cons.prems(4) jm by (simp add: cell_le_Nil)
      moreover have "unchecked (?c2 ! j)"
        using flags_nth[OF fl Cons.prems(2)] Cons.prems(3) jm by simp
      moreover have "j \<in> set ks" using Cons.prems(1) jm by simp
      moreover have "j < length ?c2" using len Cons.prems(2) by simp
      ultimately have "check_loop ks ?c2 = Inl IndexError"
        using Cons.prems(5) by (intro Cons.IH)
      with True Inr show ?thesis by simp
    qed
  qed
qed

text \<open>Two unchecked cells of the list that see each other and hold at most the one same
  value make the loop fail.\<close>

lemma check_loop_conflict:
  assumes "k \<in> set ks" "j \<in> set ks" "k \<noteq> j" "k < length c" "j < length c"
    and "j \<in> set (hits k)" "k \<in> set (hits j)"
    and "unchecked (c ! k)" "unchecked (c ! j)"
    and "cell (c ! k) = [v] \<or> cell (c ! k) = []" "cell (c ! j) = [v] \<or> cell (c ! j) = []"
  shows "check_loop ks c = Inl IndexError"
  using assms
proof (induction ks arbitrary: c)
  case Nil
  then show ?case by simp
next
  case (Cons m ks)
  have hk: "hits k \<noteq> []" and hj: "hits j \<noteq> []" using Cons.prems(6,7) by auto
  show ?case
  proof (cases "cell (c ! k) = [] \<or> cell (c ! j) = []")
    case True
    then show ?thesis
      using check_loop_empty[of k "m # ks" c] check_loop_empty[of j "m # ks" c] Cons.prems hk hj
      by blast
  next
    case False
    with Cons.prems have ck: "cell (c ! k) = [v]" and cj: "cell (c ! j) = [v]" by auto
    show ?thesis
    proof (cases "unchecked (c ! m)")
      case False
      with Cons.prems have "m \<noteq> k" "m \<noteq> j" by auto
      with Cons False show ?thesis by simp
    next
      case True
      show ?thesis
      proof (cases "hit_loop m (hits m) c")
        case (Inl e)
        with True show ?thesis by (simp add: hit_loop_error[OF Inl])
      next
        case (Inr c1)
        have sh: "shrinks c c1" using Inr by (rule hit_loop_shrinks)
        have fl: "map unchecked c1 = map unchecked c" using Inr by (rule hit_loop_flags)
        from sh have len: "length c1 = length c" by (simp add: shrinks_def)
        let ?c2 = "c1[m := (c1 ! m)\<lparr>unchecked := False\<rparr>]"
        have r: "check_loop (m # ks) c = check_loop ks ?c2" using True Inr by simp
        have len2: "length ?c2 = length c" using len by simp
        show ?thesis
        proof (cases "m = k")
          case mk: True
          from hit_loop_pointwise[OF ck hits_irrefl hits_distinct] Inr mk
          have "c1 ! j = (c ! j)\<lparr>cell := remove1 v (cell (c ! j))\<rparr>"
            using Cons.prems(5,6) by auto
          then have "cell (?c2 ! j) = []" using cj mk Cons.prems(3) by simp
          moreover have "unchecked (?c2 ! j)"
            using flags_nth[OF fl Cons.prems(5)] Cons.prems(9) mk Cons.prems(3) by simp
          moreover have "j \<in> set ks" using Cons.prems(2,3) mk by auto
          ultimately have "check_loop ks ?c2 = Inl IndexError"
            using hj len2 Cons.prems(5) by (intro check_loop_empty[of j]) auto
          with r show ?thesis by simp
        next
          case nk: False
          show ?thesis
          proof (cases "m = j")
            case mj: True
            from hit_loop_pointwise[OF cj hits_irrefl hits_distinct] Inr mj
            have "c1 ! k = (c ! k)\<lparr>cell := remove1 v (cell (c ! k))\<rparr>"
              using Cons.prems(4,7) by auto
            then have "cell (?c2 ! k) = []" using ck mj Cons.prems(3) by simp
            moreover have "unchecked (?c2 ! k)"
              using flags_nth[OF fl Cons.prems(4)] Cons.prems(8) mj Cons.prems(3) by simp
            moreover have "k \<in> set ks" using Cons.prems(1,3) mj by auto
            ultimately have "check_loop ks ?c2 = Inl IndexError"
              using hk len2 Cons.prems(4) by (intro check_loop_empty[of k]) auto
            with r show ?thesis by simp
          next
            case nj: False
            have "cell (?c2 ! k) = [v] \<or> cell (?c2 ! k) = []"
              using shrinks_nth[OF sh Cons.prems(4)] ck nk by (auto dest: cell_le_single_cases)
            moreover have "cell (?c2 ! j) = [v] \<or> cell (?c2 ! j) = []"
              using shrinks_nth[OF sh Cons.prems(5)] cj nj by (auto dest: cell_le_single_cases)
            moreover have "unchecked (?c2 ! k)" "unchecked (?c2 ! j)"
              using flags_nth[OF fl Cons.prems(4)] flags_nth[OF fl Cons.prems(5)] Cons.prems(8,9) nk nj
              by simp_all
            moreover have "k \<in> set ks" "j \<in> set ks" using Cons.prems(1,2) nk nj by auto
            ultimately have "check_loop ks ?c2 = Inl IndexError"
              using Cons.prems(3,4,5,6,7) len2 by (intro Cons.IH) auto
            with r show ?thesis by simp
          qed
        qed
      qed
    qed
  qed
qed




lemma simple_check_same_row:
  assumes "length b = 81" "k < 81" "j < 81" "k \<noteq> j" "r_of k = r_of j"
    and "b ! k = \<lparr>cell = [v], unchecked = True\<rparr>" "b ! j = \<lparr>cell = [v], unchecked = True\<rparr>"
  shows "simple_check b = Inl IndexError"
  unfolding simple_check_def
proof (rule check_loop_conflict[of k _ j _ v])
  show "k \<in> set (filled_cells b)" "j \<in> set (filled_cells b)"
    using assms by (simp_all add: filled_cells_def filled_def)
  show "j \<in> set (hits k)" "k \<in> set (hits j)" using assms by (simp_all add: hits_same_row)
qed (use assms in simp_all)


section \<open>Writing a board as 81 digits and reading it back\<close>

lemma digit_cases: "1 \<le> v \<Longrightarrow> v \<le> 9 \<Longrightarrow>
    v = 1 \<or> v = 2 \<or> v = 3 \<or> v = 4 \<or> v = 5 \<or> v = 6 \<or> v = 7 \<or> v = 8 \<or> v = (9::int)"
  by arith

lemma str_int_digit:
  assumes "1 \<le> v" "v \<le> 9"
  shows "\<exists>ch. str_int v = [ch] \<and> int_char ch = Inr v"
  using digit_cases[OF assms] by (auto simp: str_int_def int_char_def)

lemma filled_cell: "filled x \<Longrightarrow> cell x = [hd (cell x)]"
  by (cases "cell x") (auto simp: filled_def)

lemma setup_loop_cells:
  assumes "k + length xs \<le> length B" "digits_ok xs"
  shows "\<exists>B'. setup_loop (zip (setup_string xs) [k..<k + length xs]) B = Inr B' \<and>
      length B' = length B \<and>
      (\<forall>j<length B. B' ! j =
         (if k \<le> j \<and> j < k + length xs \<and> filled (xs ! (j - k))
          then (B ! j)\<lparr>cell := cell (xs ! (j - k))\<rparr> else B ! j))"
  using assms
proof (induction xs arbitrary: k B)
  case Nil
  then show ?case by (auto simp: setup_string_def)
next
  case (Cons x xs)
  have ok: "digits_ok xs" using Cons.prems(2) by (simp add: digits_ok_def)
  have up: "[k..<k + length (x # xs)] = k # [Suc k..<Suc k + length xs]"
  proof -
    have "k < Suc k + length xs" by simp
    then have "[k..<Suc k + length xs] = k # [Suc k..<Suc k + length xs]" by (rule upt_conv_Cons)
    moreover have "k + length (x # xs) = Suc k + length xs" by simp
    ultimately show ?thesis by (simp only:)
  qed
  obtain ch v where ch: "setup_string (x # xs) = ch # setup_string xs" "int_char ch = Inr v"
    "filled x \<longrightarrow> v \<noteq> 0 \<and> cell x = [v]" "\<not> filled x \<longrightarrow> v = 0"
  proof (cases "filled x")
    case True
    with Cons.prems(2) have "1 \<le> hd (cell x)" "hd (cell x) \<le> 9" by (simp_all add: digits_ok_def)
    from str_int_digit[OF this] obtain c where "str_int (hd (cell x)) = [c]" "int_char c = Inr (hd (cell x))"
      by blast
    with True \<open>1 \<le> hd (cell x)\<close> filled_cell[OF True] that[of c "hd (cell x)"] show ?thesis
      by (simp add: setup_string_def)
  next
    case False
    with that[of "CHR ''0''" 0] show ?thesis by (simp add: setup_string_def int_char_0)
  qed
  let ?B1 = "if v \<noteq> 0 then B[k := (B ! k)\<lparr>cell := [v]\<rparr>] else B"
  have len1: "length ?B1 = length B" by simp
  from Cons.prems(1) have "Suc k + length xs \<le> length ?B1" by simp
  from Cons.IH[OF this ok] obtain B' where B':
    "setup_loop (zip (setup_string xs) [Suc k..<Suc k + length xs]) ?B1 = Inr B'"
    "length B' = length ?B1"
    "\<forall>j<length ?B1. B' ! j =
         (if Suc k \<le> j \<and> j < Suc k + length xs \<and> filled (xs ! (j - Suc k))
          then (?B1 ! j)\<lparr>cell := cell (xs ! (j - Suc k))\<rparr> else ?B1 ! j)"
    by blast
  have 1: "setup_loop (zip (setup_string (x # xs)) [k..<k + length (x # xs)]) B = Inr B'"
    unfolding up ch(1) using ch(2) B'(1) by simp
  have 2: "length B' = length B" using B'(2) by simp
  have 3: "\<forall>j<length B. B' ! j =
         (if k \<le> j \<and> j < k + length (x # xs) \<and> filled ((x # xs) ! (j - k))
          then (B ! j)\<lparr>cell := cell ((x # xs) ! (j - k))\<rparr> else B ! j)"
  proof (intro allI impI)
    fix j assume j: "j < length B"
    with B'(3) have e: "B' ! j =
         (if Suc k \<le> j \<and> j < Suc k + length xs \<and> filled (xs ! (j - Suc k))
          then (?B1 ! j)\<lparr>cell := cell (xs ! (j - Suc k))\<rparr> else ?B1 ! j)" by simp
    show "B' ! j =
         (if k \<le> j \<and> j < k + length (x # xs) \<and> filled ((x # xs) ! (j - k))
          then (B ! j)\<lparr>cell := cell ((x # xs) ! (j - k))\<rparr> else B ! j)"
    proof (cases "j = k")
      case True
      with e j ch(3,4) show ?thesis by (cases "filled x") auto
    next
      case False
      then have "?B1 ! j = B ! j" by simp
      moreover have "k \<le> j \<Longrightarrow> (x # xs) ! (j - k) = xs ! (j - Suc k)"
        using False by (simp add: nth_Cons')
      ultimately show ?thesis using e False by (cases "k \<le> j") auto
    qed
  qed
  from 1 2 3 show ?case by blast
qed

lemma Board_setup_setup_string:
  assumes "length b = 81" "digits_ok b"
  shows "Board_setup Board_init (setup_string b) = Inr (rebuilt b)"
proof -
  from setup_loop_cells[of 0 b Board_init] assms obtain B' where B':
    "setup_loop (zip (setup_string b) [0..<81]) Board_init = Inr B'" "length B' = 81"
    "\<forall>j<81. B' ! j = (if filled (b ! j) then (Board_init ! j)\<lparr>cell := cell (b ! j)\<rparr> else Board_init ! j)"
    by (auto simp: length_Board_init)
  have "B' = rebuilt b"
  proof (rule nth_equalityI)
    show "length B' = length (rebuilt b)" using B'(2) assms(1) by (simp add: rebuilt_def)
    fix j assume "j < length B'"
    then have j: "j < 81" using B'(2) by simp
    with B'(3) assms(1) show "B' ! j = rebuilt b ! j"
      by (simp add: rebuilt_def Board_init_def Cell_init_def)
  qed
  with B'(1) show ?thesis by (simp add: Board_setup_def length_Board_init)
qed

lemma setup_string_rebuilt: "setup_string (rebuilt b) = setup_string b"
  by (rule setup_string_cong) (auto simp: rebuilt_def filled_def Cell_init_def)

lemma digits_ok_ex1_fix: "digits_ok ex1_fix"
  unfolding digits_ok_def
proof (intro ballI impI)
  fix x assume "x \<in> set ex1_fix" and f: "filled x"
  then obtain i where "i < 81" "x = ex1_fix ! i" by (auto simp: in_set_conv_nth length_ex1_fix)
  with f show "1 \<le> hd (cell x) \<and> hd (cell x) \<le> 9"
    by (auto simp: nth_ex1_fix filled_def Cell_init_def simp del: set_simps split: if_splits)
qed

lemma rebuilt_ex1_fix: "rebuilt ex1_fix = ex1"
proof (rule nth_equalityI)
  show "length (rebuilt ex1_fix) = length ex1" by (simp add: rebuilt_def length_ex1 length_ex1_fix)
  fix i assume "i < length (rebuilt ex1_fix)"
  then have i: "i < 81" by (simp add: rebuilt_def length_ex1_fix)
  then show "rebuilt ex1_fix ! i = ex1 ! i"
    by (simp add: rebuilt_def length_ex1_fix nth_ex1 nth_ex1_fix filled_def Cell_init_def del: set_simps)
qed

lemma length_ex2: "length ex2 = 81" by (simp add: ex2_def length_Board_init)

lemma digits_ok_ex2: "digits_ok ex2"
  using ex2_unfilled by (simp add: digits_ok_def)


section \<open>A cell emptied during the elimination pass, and a cycle of the driver with a trial\<close>







lemma group_step_two:
  assumes "x \<in> set g" "y \<in> set g" "x \<noteq> y" "n \<in> set (cell (b ! x))" "n \<in> set (cell (b ! y))"
  shows "group_step g n b = b"
proof -
  let ?f = "filter (\<lambda>i. n \<in> set (cell (b ! i))) g"
  from assms have xy: "x \<in> set ?f" "y \<in> set ?f" by simp_all
  have "?f \<noteq> [i]" for i
  proof
    assume e: "?f = [i]"
    from xy have "x = i" "y = i" unfolding e by simp_all
    with assms(3) show False by simp
  qed
  then show ?thesis unfolding group_step_def
    by (cases ?f; cases "tl ?f") auto
qed

lemma group_lists_two:
  "lis \<in> set group_lists \<Longrightarrow> g \<in> set lis \<Longrightarrow>
     \<exists>x\<in>set g. \<exists>y\<in>set g. x \<noteq> y \<and> x \<noteq> 0 \<and> y \<noteq> 0 \<and> x < 81 \<and> y < 81"
  unfolding group_lists_eq by auto

lemma nth_ex2: "i < 81 \<Longrightarrow> i \<noteq> 0 \<Longrightarrow> ex2 ! i = Cell_init"
  by (simp add: ex2_def Board_init_def)

lemma group_check_ex2: "group_check ex2 = ex2"
  unfolding group_check_def
proof (intro fold_id)
  fix lis and p :: "nat list \<times> int" assume lis: "lis \<in> set group_lists"
    and p: "p \<in> set (List.product lis [1, 2, 3, 4, 5, 6, 7, 8, 9])"
  obtain g and n :: int where gn: "p = (g, n)" by (cases p)
  with p have g: "g \<in> set lis" and n: "n \<in> {1, 2, 3, 4, 5, 6, 7, 8, 9}" by auto
  from group_lists_two[OF lis g] obtain x y where
    xy: "x \<in> set g" "y \<in> set g" "x \<noteq> y" "x \<noteq> 0" "y \<noteq> 0" "x < 81" "y < 81" by blast
  from n xy have "n \<in> set (cell (ex2 ! x))" "n \<in> set (cell (ex2 ! y))"
    by (auto simp: nth_ex2 Cell_init_def)
  from group_step_two[OF xy(1,2,3) this] gn
  show "(case p of (g, n) \<Rightarrow> group_step g n) ex2 = ex2" by simp
qed

lemma all_checked_ex2: "all_checked ex2"
  using ex2_unfilled by (auto simp: all_checked_def)

lemma basic_checks_ex2: "basic_checks ex2 = Some (Inr ex2)"
  by (rule basic_checks_fix[OF all_checked_ex2 group_check_ex2])

lemma not_solved_ex2: "\<not> solved ex2"
proof
  assume "solved ex2"
  moreover have "ex2 ! 0 \<in> set ex2" by (intro nth_mem) (simp add: length_ex2)
  ultimately have "filled (ex2 ! 0)" by (simp add: solved_iff)
  then show False by (simp add: nth_ex2_0 filled_def)
qed

lemma almost_ex2: "filter (\<lambda>i. length (cell (ex2 ! i)) = 2) [0..<length ex2] = [0]"
  unfolding length_ex2 ex2_def Board_init_def
  by (simp add: upt_rec[of 0] filter_empty_conv Cell_init_def nth_upd)

lemma simple_brute_check_ex2: "simple_brute_check ex2 = Some (Inr ex2)"
  by (simp add: simple_brute_check_def almost_ex2 trial_def trial_new_ex2)

section \<open>The result of an elimination pass without a conflict\<close>




section \<open>The geometry of the board, position by position\<close>










section \<open>The fixpoint of a board with three two-candidate cells\<close>

























section \<open>The first trial on that board, and the scratch board of the second\<close>

























section \<open>The claims\<close>

text \<open>
  Claim C7. The combined fixpoint \<open>basic_checks\<close> terminates on every board: it returns a
  board or raises, and never loops for ever. The loops are modelled as partial functions
  whose value \<open>None\<close> stands for a run that does not end; the proof (lemmas
  \<open>simple_loop_returns\<close>, \<open>group_loop_returns\<close>, \<open>basic_checks_returns\<close>) is by induction
  on the number of candidates \<open>total\<close>, which no pass increases (\<open>shrinks_total\<close>) and which
  every pass that changes a candidate list decreases (\<open>shrinks_total_less\<close>); a pass or cycle
  that changes nothing is the exit of its loop.
\<close>

theorem C7_basic_checks_terminates: "\<exists>r. basic_checks b = Some r"
  by (rule basic_checks_returns)

text \<open>
  Claim C8. The number of candidates on the board after one elimination pass
  (\<open>simple_check\<close>, when it returns) and after one unique-candidate pass (\<open>group_check\<close>) is
  at most the number before; and the unique-candidate pass leaves every cell either as it
  was or with a single candidate that the cell had before the pass.
\<close>

theorem C8_passes_do_not_grow:
  "(simple_check b = Inr b' \<longrightarrow> total b' \<le> total b) \<and>
   total (group_check b) \<le> total b \<and>
   (\<forall>i<length b. cell (group_check b ! i) = cell (b ! i) \<or>
      (\<exists>n\<in>set (cell (b ! i)). cell (group_check b ! i) = [n]))"
  using simple_check_shrinks[of b b'] shrinks_total group_check_shrinks[of b] group_check_single[of _ b]
  by blast

theorem C8_witness:
  "\<exists>b'. simple_check ex1 = Inr b' \<and> total b' \<le> total ex1 \<and> (0::nat) < length ex1 \<and>
     (cell (group_check ex1 ! 0) = cell (ex1 ! 0) \<or>
      (\<exists>n\<in>set (cell (ex1 ! 0)). cell (group_check ex1 ! 0) = [n]))"
proof -
  from ex1_simple_check obtain b' where b': "simple_check ex1 = Inr b'" by blast
  have len: "(0::nat) < length ex1" by (simp add: ex1_def length_Board_init)
  from C8_passes_do_not_grow[of ex1 b'] b' len show ?thesis by blast
qed

text \<open>
  Claim C9. The combined fixpoint is idempotent: when \<open>basic_checks\<close> returns a board
  without raising, \<open>basic_checks\<close> on that board returns the very same board (the same
  candidate lists, and the same flags as well).
\<close>

theorem C9_basic_checks_idempotent:
  "basic_checks b = Some (Inr b') \<Longrightarrow> basic_checks b' = Some (Inr b')"
  using basic_checks_result[of b b'] by (simp add: basic_checks_fix)

theorem C9_witness:
  "basic_checks ex1 = Some (Inr ex1_fix) \<and> basic_checks ex1_fix = Some (Inr ex1_fix)"
  using C9_basic_checks_idempotent[OF basic_checks_ex1] basic_checks_ex1 by simp

text \<open>
  Claim C6. A trial of the disambiguator whose \<open>try\<close> body ends without an exception (both
  runs of the fixpoint on the scratch board return) leaves the real board exactly as it
  was: the loop iteration returns the board it was given.
\<close>

theorem C6_no_contradiction_no_change:
  "trial_new b i = Some (Inr new) \<Longrightarrow> trial b i = Some (Inr b)"
  by (simp add: trial_def)

theorem C6_witness:
  "trial_new ex2 0 = Some (Inr ex1_fix) \<and> trial ex2 0 = Some (Inr ex2)"
  using C6_no_contradiction_no_change[OF trial_new_ex2] trial_new_ex2 by simp

text \<open>
  Claim C4, as stated, fails: the driver compares \<open>str(board.cells)\<close>, which shows every
  candidate list, not the 81-digit string. For the text that is a 1 followed by eighty
  zeros the first cycle (the fixpoint, then a disambiguator pass that finds no cell with two
  candidates) removes the 1 from twenty cells and solves no cell: the 81-digit string of the
  board is the same before and after the cycle, yet the loop does not stop there but runs
  again from the new board.
\<close>

theorem C4_counterexample:
  "Board_setup Board_init (CHR ''1'' # replicate 80 CHR ''0'') = Inr ex1 \<and>
   basic_checks ex1 = Some (Inr ex1_fix) \<and> \<not> solved ex1_fix \<and>
   simple_brute_check ex1_fix = Some (Inr ex1_fix) \<and>
   setup_string ex1_fix = setup_string ex1 \<and>
   solve_cycle ex1 = Some (Inr (Again ex1_fix)) \<and> solve ex1 = solve ex1_fix"
proof -
  have "solve ex1 = solve ex1_fix"
    by (subst solve.simps) (simp add: solve_cycle_ex1)
  then show ?thesis
    by (simp add: Board_setup_ex1 solve_cycle_ex1 setup_string_ex1 basic_checks_ex1
        not_solved_ex1_fix simple_brute_check_ex1_fix)
qed

text \<open>
  Claim C4, amended. The loop \<open>solve\<close>: when the fixpoint on the board \<open>b\<close> returns \<open>b1\<close> and,
  for an unsolved \<open>b1\<close>, the disambiguator pass on \<open>b1\<close> returns \<open>b2\<close>, the loop ends with
  success if \<open>b1\<close> is solved; otherwise it ends (silently: the exit prints nothing) exactly
  when no candidate list of \<open>b2\<close> differs from the list \<open>b\<close> had at the start of the cycle, and
  in every other case it runs again from \<open>b2\<close>.
\<close>

theorem C4_solve_loop:
  assumes "basic_checks b = Some (Inr b1)"
    and "\<not> solved b1 \<longrightarrow> simple_brute_check b1 = Some (Inr b2)"
  shows "solve b = (if solved b1 then Some (Inr (Solved b1))
                    else if str_cells b = str_cells b2 then Some (Inr (Stuck b2))
                    else solve b2)"
  using assms by (subst solve.simps[of b]) (simp add: solve_cycle_def)

theorem C4_witness:
  "basic_checks ex2 = Some (Inr ex2) \<and> \<not> solved ex2 \<and>
   trial ex2 0 = Some (Inr ex2) \<and> simple_brute_check ex2 = Some (Inr ex2) \<and>
   solve ex2 = Some (Inr (Stuck ex2)) \<and>
   basic_checks ex1 = Some (Inr ex1_fix) \<and> simple_brute_check ex1_fix = Some (Inr ex1_fix) \<and>
   str_cells ex1 \<noteq> str_cells ex1_fix \<and> solve ex1 = solve ex1_fix \<and>
   solve ex1_fix = Some (Inr (Stuck ex1_fix))"
proof -
  have t: "trial ex2 0 = Some (Inr ex2)" by (simp add: trial_def trial_new_ex2)
  have 1: "solve ex2 = Some (Inr (Stuck ex2))"
    using C4_solve_loop[of ex2 ex2 ex2] by (simp add: basic_checks_ex2 not_solved_ex2 simple_brute_check_ex2)
  have 2: "solve ex1 = solve ex1_fix"
    using C4_solve_loop[of ex1 ex1_fix ex1_fix]
    by (simp add: basic_checks_ex1 not_solved_ex1_fix simple_brute_check_ex1_fix str_cells_ex1)
  have 3: "solve ex1_fix = Some (Inr (Stuck ex1_fix))"
    using C4_solve_loop[of ex1_fix ex1_fix ex1_fix]
    by (simp add: basic_checks_ex1_fix not_solved_ex1_fix simple_brute_check_ex1_fix)
  from t 1 2 3 show ?thesis
    by (simp add: basic_checks_ex2 not_solved_ex2 simple_brute_check_ex2 basic_checks_ex1
        simple_brute_check_ex1_fix str_cells_ex1)
qed

text \<open>
  Claim C1, as stated, fails: \<open>Cell.remove\<close> is \<open>list.remove\<close> and nothing more, so removing
  the last candidate returns normally and leaves the cell empty.
\<close>

theorem C1_counterexample:
  "Cell_remove \<lparr>cell = [5], unchecked = True\<rparr> 5 = Inr \<lparr>cell = [], unchecked = True\<rparr>"
  by (simp add: Cell_remove_def)

text \<open>
  Claim C1, amended. \<open>Cell.remove(value)\<close> deletes the first occurrence of \<open>value\<close> from the
  candidate list and fails (with \<open>ValueError\<close>) only when the value is not there; it does not
  fail when the list becomes empty. The elimination pass on a board in which two cells of
  one row are both exactly \<open>[5]\<close> and not yet propagated raises \<open>IndexError\<close>: the removal
  empties one of the two silently, and the pass fails when it comes to read the first
  candidate of that emptied cell.
\<close>

theorem C1_remove_and_elimination:
  "Cell_remove x val =
     (if val \<in> set (cell x) then Inr (x\<lparr>cell := remove1 val (cell x)\<rparr>) else Inl ValueError) \<and>
   (length b = 81 \<and> k < 81 \<and> j < 81 \<and> k \<noteq> j \<and> r_of k = r_of j \<and>
    b ! k = \<lparr>cell = [5], unchecked = True\<rparr> \<and> b ! j = \<lparr>cell = [5], unchecked = True\<rparr>
    \<longrightarrow> simple_check b = Inl IndexError)"
  using simple_check_same_row[of b k j 5] by (simp add: Cell_remove_def)

theorem C1_witness:
  "length ex4 = 81 \<and> (0::nat) < 81 \<and> (1::nat) < 81 \<and> (0::nat) \<noteq> 1 \<and> r_of 0 = r_of 1 \<and>
   ex4 ! 0 = \<lparr>cell = [5], unchecked = True\<rparr> \<and> ex4 ! 1 = \<lparr>cell = [5], unchecked = True\<rparr> \<and>
   simple_check ex4 = Inl IndexError"
proof -
  have h: "length ex4 = 81 \<and> (0::nat) < 81 \<and> (1::nat) < 81 \<and> (0::nat) \<noteq> 1 \<and> r_of 0 = r_of 1 \<and>
     ex4 ! 0 = \<lparr>cell = [5], unchecked = True\<rparr> \<and> ex4 ! 1 = \<lparr>cell = [5], unchecked = True\<rparr>"
    by (simp add: ex4_def Board_init_def r_of_def)
  with C1_remove_and_elimination[of _ _ ex4 0 1] show ?thesis by blast
qed




text \<open>
  Claim C5, as stated, fails: an unsolved cell is written as 0 whatever candidates it has
  left. The board that the elimination pass makes of the text 1, 0, ..., 0 is read back
  from its own digit string as the board before the pass, with all nine candidates in the
  twenty peers of the first cell.
\<close>

theorem C5_counterexample:
  "simple_check ex1 = Inr ex1_fix \<and>
   Board_setup Board_init (setup_string ex1_fix) = Inr ex1 \<and> str_cells ex1 \<noteq> str_cells ex1_fix"
  using Board_setup_setup_string[OF length_ex1_fix digits_ok_ex1_fix]
  by (simp add: simple_check_ex1 rebuilt_ex1_fix str_cells_ex1)

text \<open>
  Claim C5, amended. For every board of 81 cells whose solved cells hold digits 1 to 9,
  reading its digit string into a new board succeeds and gives the board \<open>rebuilt b\<close>: the
  same solved cells, all nine candidates in every other cell, every cell unpropagated. The
  round trip is the identity on the digit string: the board read back has the digit string
  of the original.
\<close>

theorem C5_round_trip:
  assumes "length b = 81" "digits_ok b"
  shows "Board_setup Board_init (setup_string b) = Inr (rebuilt b) \<and>
         setup_string (rebuilt b) = setup_string b"
  using assms by (simp add: Board_setup_setup_string setup_string_rebuilt)

theorem C5_witness:
  "length ex1_fix = 81 \<and> digits_ok ex1_fix \<and>
   Board_setup Board_init (setup_string ex1_fix) = Inr (rebuilt ex1_fix) \<and>
   setup_string (rebuilt ex1_fix) = setup_string ex1_fix"
  using C5_round_trip[OF length_ex1_fix digits_ok_ex1_fix] length_ex1_fix digits_ok_ex1_fix by simp






end
